theory Spec2Isabelle
  imports
    Main
    "HOL-Library.Word"
    "HOL-Library.Tree"
    "HOL-Library.Char_ord"
    "HOL-Library.List_Lexorder"
    "HOL-Library.Sublist"
begin

section \<open>The wakelock registry of kernel/power/wakelock.c\<close>

text \<open>
  A shallow embedding of \<^verbatim>\<open>kernel/power/wakelock.c\<close>: the name-indexed tree of
  wakelocks, the LRU list the garbage collector walks, the acquisition filter and the two
  entry points \<^verbatim>\<open>pm_wake_lock\<close> and \<^verbatim>\<open>pm_wake_unlock\<close>.

  Conventions.
  \<^item> A C string is a \<open>string\<close>: the bytes before the terminating NUL. The end of the
    list plays the role of the NUL byte.
  \<^item> \<^verbatim>\<open>u64\<close> and \<^verbatim>\<open>ktime_t\<close> are \<open>64 word\<close>, \<^verbatim>\<open>unsigned int\<close> is \<open>32 word\<close>;
    arithmetic wraps as in C.
  \<^item> The wakelock objects live in a store \<open>mem\<close> from addresses to objects; the tree and
    the LRU list both hold addresses, as the embedded \<^verbatim>\<open>rb_node\<close> and \<^verbatim>\<open>list_head\<close> do.
  \<^item> The model is the build with \<^verbatim>\<open>CONFIG_PM_WAKELOCKS_GC\<close> set (the one that has a
    collector); \<^verbatim>\<open>CONFIG_PM_WAKELOCKS_LIMIT\<close> is a parameter.
  \<^item> The mutex \<^verbatim>\<open>wakelocks_lock\<close> serialises every operation below, so each operation is
    one atomic state transformer.
\<close>

subsection \<open>C library routines used by the file\<close>

text \<open>
  Modelled from the spec: the character, string and number routines are the kernel
  library's (\<^verbatim>\<open>lib/ctype.c\<close>, \<^verbatim>\<open>lib/string.c\<close>, \<^verbatim>\<open>lib/kstrtox.c\<close>) and are not among
  the sources. The spec asks for the longest leading run of non-whitespace bytes and an
  unsigned 64-bit decimal number (section 6), case-sensitive substring containment
  (section 9), and a total order on names that tells a name from its proper prefix
  (section 4.1); the definitions below give these their C meaning.
\<close>

definition newline :: char where
  "newline = CHR 0x0A"

definition isspace :: "char \<Rightarrow> bool" where
  \<comment> \<open>the kernel's ctype table: TAB..CR, space, and 0xA0\<close>
  "isspace c = (let n = (of_char c :: nat) in (9 \<le> n \<and> n \<le> 13) \<or> n = 32 \<or> n = 160)"

definition skip_spaces :: "string \<Rightarrow> string" where
  "skip_spaces str = dropWhile isspace str"

fun strstr :: "string \<Rightarrow> string \<Rightarrow> string option" where
  \<comment> \<open>the tail of \<open>s1\<close> starting at the first occurrence of \<open>s2\<close>; \<open>None\<close> is NULL\<close>
  "strstr [] s2 = (if s2 = [] then Some [] else None)"
| "strstr (c # s1) s2 = (if prefix s2 (c # s1) then Some (c # s1) else strstr s1 s2)"

definition found :: "'a option \<Rightarrow> bool" where
  \<comment> \<open>a pointer used as a condition: true unless NULL\<close>
  "found p = (case p of None \<Rightarrow> False | Some x \<Rightarrow> True)"

fun strncmp :: "string \<Rightarrow> string \<Rightarrow> nat \<Rightarrow> int" where
  \<comment> \<open>bytes compare as unsigned char; the end of a string is the byte 0\<close>
  "strncmp cs ct 0 = 0"
| "strncmp [] [] (Suc n) = 0"
| "strncmp [] (c2 # ct) (Suc n) = - 1"
| "strncmp (c1 # cs) [] (Suc n) = 1"
| "strncmp (c1 # cs) (c2 # ct) (Suc n) =
     (if c1 \<noteq> c2 then (if (of_char c1 :: nat) < of_char c2 then - 1 else 1)
      else strncmp cs ct n)"

definition kstrndup :: "string \<Rightarrow> nat \<Rightarrow> string" where
  "kstrndup s len = take len s"

datatype errno = EPERM | EINVAL | ENOSPC | ENOMEM | ERANGE

definition isdigit :: "char \<Rightarrow> bool" where
  "isdigit c = (let n = (of_char c :: nat) in 48 \<le> n \<and> n \<le> 57)"

definition digit_val :: "char \<Rightarrow> int" where
  "digit_val c = of_char c - 48"

definition parse_integer :: "string \<Rightarrow> int" where
  \<comment> \<open>the value of a run of decimal digits, before any truncation to 64 bits\<close>
  "parse_integer ds = foldl (\<lambda>acc c. 10 * acc + digit_val c) 0 ds"

definition kstrtou64 :: "string \<Rightarrow> errno + 64 word" where
  \<comment> \<open>base 10: an optional \<open>+\<close>, at least one digit, an optional single newline, the end\<close>
  "kstrtou64 s0 =
     (let s = (case s0 of [] \<Rightarrow> [] | c # r \<Rightarrow> if c = CHR ''+'' then r else s0);
          ds = takeWhile isdigit s;
          rest = dropWhile isdigit s
      in if 2 ^ 64 \<le> parse_integer ds then Inl ERANGE
         else if ds = [] then Inl EINVAL
         else if rest = [] \<or> rest = [newline] then Inr (of_int (parse_integer ds))
         else Inl EINVAL)"

definition NSEC_PER_MSEC :: "64 word" where
  "NSEC_PER_MSEC = 1000000"

definition NSEC_PER_SEC :: "64 word" where
  "NSEC_PER_SEC = 1000000000"

subsection \<open>Data\<close>

type_synonym addr = nat
type_synonym ktime = "64 word"

text \<open>
  The part of \<^verbatim>\<open>struct wakeup_source\<close> the file reads and the wakeup primitives write:
  the \<open>active\<close> flag, the time of the last activity, and the expiry (in milliseconds) the
  last timed activation asked for.
\<close>

record wakeup_source =
  active :: bool
  last_time :: ktime
  timer_msec :: "64 word option"

record wakelock =
  name :: string
  ws :: wakeup_source

datatype dir = rb_left | rb_right

record registry =
  mem :: "addr \<rightharpoonup> wakelock"
  brk :: addr
  wakelocks_tree :: "addr tree"
  wakelocks_lru_list :: "addr list"
  number_of_wakelocks :: "32 word"
  wakelocks_gc_count :: "32 word"
  wakelock_work_pending :: bool
  screen_is_off :: bool
  sensor_event_active :: bool

text \<open>
  What the build and the kernel library supply: the configured limit, and the two
  red-black routines that rebalance after a link and unlink a node. The routines are
  parameters; \<open>rb_ok\<close> is their contract (the in-order sequence of the tree is kept by
  rebalancing, and loses exactly the erased node).
\<close>

record kernel =
  CONFIG_PM_WAKELOCKS_LIMIT :: nat
  rb_insert_color :: "addr tree \<Rightarrow> addr tree"
  rb_erase :: "addr \<Rightarrow> addr tree \<Rightarrow> addr tree"

definition rb_ok :: "kernel \<Rightarrow> bool" where
  "rb_ok k = ((\<forall>t. inorder (rb_insert_color k t) = inorder t) \<and>
              (\<forall>a t. inorder (rb_erase k a t) = removeAll a (inorder t)))"

text \<open>What one call observes of its surroundings.\<close>

record env =
  capable :: bool
  ktime_get :: ktime
  kzalloc_ok :: bool
  kstrndup_ok :: bool
  wakeup_source_register_ok :: bool
  idle_cpu :: bool

definition deref :: "(addr \<rightharpoonup> wakelock) \<Rightarrow> addr \<Rightarrow> wakelock" where
  \<comment> \<open>reading through a pointer; every address of a well-formed registry is allocated\<close>
  "deref m a = the (m a)"

definition init_registry :: registry where
  "init_registry =
     \<lparr>mem = Map.empty, brk = 0, wakelocks_tree = Leaf, wakelocks_lru_list = [],
      number_of_wakelocks = 0, wakelocks_gc_count = 0, wakelock_work_pending = False,
      screen_is_off = False, sensor_event_active = False\<rparr>"

subsection \<open>The wakeup primitives\<close>

text \<open>
  Modelled from the spec: \<^verbatim>\<open>__pm_stay_awake\<close>, \<^verbatim>\<open>__pm_wakeup_event\<close>, \<^verbatim>\<open>__pm_relax\<close>
  and \<^verbatim>\<open>wakeup_source_register\<close> are the platform's (section 4.2 of the spec: an acquire
  makes the lock active, indefinitely or until the deadline, a release makes it idle, and
  each refreshes the time of last activity). The leading underscores are dropped: an
  identifier cannot start with one.
\<close>

definition ws_update :: "addr \<Rightarrow> (wakeup_source \<Rightarrow> wakeup_source) \<Rightarrow> registry \<Rightarrow> registry" where
  "ws_update wl f s =
     s\<lparr>mem := (mem s)(wl \<mapsto> (deref (mem s) wl)\<lparr>ws := f (ws (deref (mem s) wl))\<rparr>)\<rparr>"

definition pm_stay_awake :: "env \<Rightarrow> addr \<Rightarrow> registry \<Rightarrow> registry" where
  "pm_stay_awake e wl s =
     ws_update wl (\<lambda>w. \<lparr>active = True, last_time = ktime_get e, timer_msec = None\<rparr>) s"

definition pm_wakeup_event :: "env \<Rightarrow> addr \<Rightarrow> 64 word \<Rightarrow> registry \<Rightarrow> registry" where
  "pm_wakeup_event e wl msec s =
     ws_update wl (\<lambda>w. \<lparr>active = True, last_time = ktime_get e, timer_msec = Some msec\<rparr>) s"

definition pm_relax :: "env \<Rightarrow> addr \<Rightarrow> registry \<Rightarrow> registry" where
  "pm_relax e wl s =
     ws_update wl (\<lambda>w. \<lparr>active = False, last_time = ktime_get e, timer_msec = None\<rparr>) s"

definition wakeup_source_register :: "env \<Rightarrow> wakeup_source" where
  "wakeup_source_register e = \<lparr>active = False, last_time = 0, timer_msec = None\<rparr>"

subsection \<open>The counter and the LRU list\<close>

definition wakelocks_limit_exceeded :: "kernel \<Rightarrow> registry \<Rightarrow> bool" where
  "wakelocks_limit_exceeded k s =
     (if 0 < CONFIG_PM_WAKELOCKS_LIMIT k
      then CONFIG_PM_WAKELOCKS_LIMIT k < unat (number_of_wakelocks s)
      else False)"

definition increment_wakelocks_number :: "kernel \<Rightarrow> registry \<Rightarrow> registry" where
  "increment_wakelocks_number k s =
     (if 0 < CONFIG_PM_WAKELOCKS_LIMIT k
      then s\<lparr>number_of_wakelocks := number_of_wakelocks s + 1\<rparr>
      else s)"

definition decrement_wakelocks_number :: "kernel \<Rightarrow> registry \<Rightarrow> registry" where
  "decrement_wakelocks_number k s =
     (if 0 < CONFIG_PM_WAKELOCKS_LIMIT k
      then s\<lparr>number_of_wakelocks := number_of_wakelocks s - 1\<rparr>
      else s)"

definition WL_GC_COUNT_MAX :: "32 word" where
  "WL_GC_COUNT_MAX = 100"

definition WL_GC_TIME_SEC :: "64 word" where
  "WL_GC_TIME_SEC = 300"

definition wakelocks_lru_add :: "addr \<Rightarrow> registry \<Rightarrow> registry" where
  \<comment> \<open>\<^verbatim>\<open>list_add\<close>: at the head\<close>
  "wakelocks_lru_add wl s = s\<lparr>wakelocks_lru_list := wl # wakelocks_lru_list s\<rparr>"

definition wakelocks_lru_most_recent :: "addr \<Rightarrow> registry \<Rightarrow> registry" where
  \<comment> \<open>\<^verbatim>\<open>list_move\<close>: unlink the node, link it at the head\<close>
  "wakelocks_lru_most_recent wl s =
     s\<lparr>wakelocks_lru_list := wl # remove1 wl (wakelocks_lru_list s)\<rparr>"

subsection \<open>The collector\<close>

definition destroy_wakelock :: "kernel \<Rightarrow> addr \<Rightarrow> registry \<Rightarrow> registry" where
  \<comment> \<open>the body of \<^verbatim>\<open>if (!active)\<close>: unregister and free the object, unlink it from the
      tree and from the LRU list, count it out\<close>
  "destroy_wakelock k wl s =
     decrement_wakelocks_number k
       (s\<lparr>mem := (mem s)(wl := None),
          wakelocks_tree := rb_erase k wl (wakelocks_tree s),
          wakelocks_lru_list := remove1 wl (wakelocks_lru_list s)\<rparr>)"

fun gc_loop :: "kernel \<Rightarrow> ktime \<Rightarrow> addr list \<Rightarrow> registry \<Rightarrow> registry" where
  \<comment> \<open>\<^verbatim>\<open>list_for_each_entry_safe_reverse\<close> over the entries still to visit\<close>
  "gc_loop k now [] s = s"
| "gc_loop k now (wl # rest) s =
     (let idle_time_ns = now - last_time (ws (deref (mem s) wl));
          act = active (ws (deref (mem s) wl))
      in if idle_time_ns < WL_GC_TIME_SEC * NSEC_PER_SEC then s
         else if \<not> act then gc_loop k now rest (destroy_wakelock k wl s)
         else gc_loop k now rest s)"

definition wakelocks_gc_work :: "kernel \<Rightarrow> env \<Rightarrow> registry \<Rightarrow> registry" where
  \<comment> \<open>\<^verbatim>\<open>__wakelocks_gc\<close>: the sweep, from the tail of the LRU list to its head\<close>
  "wakelocks_gc_work k e s =
     (gc_loop k (ktime_get e) (rev (wakelocks_lru_list s)) s)
       \<lparr>wakelocks_gc_count := 0, wakelock_work_pending := False\<rparr>"

definition schedule_work :: "registry \<Rightarrow> registry" where
  "schedule_work s = s\<lparr>wakelock_work_pending := True\<rparr>"

definition wakelocks_gc :: "env \<Rightarrow> registry \<Rightarrow> registry" where
  "wakelocks_gc e s =
     (if idle_cpu e then schedule_work s
      else let s1 = s\<lparr>wakelocks_gc_count := wakelocks_gc_count s + 1\<rparr>
           in if wakelocks_gc_count s1 \<le> WL_GC_COUNT_MAX then s1 else schedule_work s1)"

subsection \<open>The name index\<close>

fun walk :: "(addr \<rightharpoonup> wakelock) \<Rightarrow> string \<Rightarrow> nat \<Rightarrow> addr tree \<Rightarrow> addr + dir list" where
  \<comment> \<open>the \<^verbatim>\<open>while (*node)\<close> loop: the wakelock found, or the empty slot \<^verbatim>\<open>node\<close> the
      descent ended in, as the path to it from the root\<close>
  "walk m nm len Leaf = Inr []"
| "walk m nm len (Node l a r) =
     (let wl = deref m a;
          diff = strncmp nm (name wl) len
      in if diff = 0 \<and> \<not> len < length (name wl) then Inl a
         else if (if diff = 0 then - 1 else diff) < 0
              then (case walk m nm len l of Inl x \<Rightarrow> Inl x | Inr p \<Rightarrow> Inr (rb_left # p))
              else (case walk m nm len r of Inl x \<Rightarrow> Inl x | Inr p \<Rightarrow> Inr (rb_right # p)))"

fun rb_link_node :: "addr \<Rightarrow> dir list \<Rightarrow> addr tree \<Rightarrow> addr tree" where
  \<comment> \<open>store the new node, with no children, in the slot\<close>
  "rb_link_node new [] t = Node Leaf new Leaf"
| "rb_link_node new (rb_left # p) (Node l a r) = Node (rb_link_node new p l) a r"
| "rb_link_node new (rb_right # p) (Node l a r) = Node l a (rb_link_node new p r)"
| "rb_link_node new (d # p) Leaf = Leaf"

definition wakelock_lookup_add ::
  "kernel \<Rightarrow> env \<Rightarrow> string \<Rightarrow> nat \<Rightarrow> bool \<Rightarrow> registry \<Rightarrow> (errno + addr) \<times> registry" where
  "wakelock_lookup_add k e nm len add_if_not_found s =
     (case walk (mem s) nm len (wakelocks_tree s) of
        Inl wl \<Rightarrow> (Inr wl, s)
      | Inr node \<Rightarrow>
          if \<not> add_if_not_found then (Inl EINVAL, s)
          else if wakelocks_limit_exceeded k s then (Inl ENOSPC, s)
          else if \<not> kzalloc_ok e then (Inl ENOMEM, s)
          else if \<not> kstrndup_ok e then (Inl ENOMEM, s)
          else if \<not> wakeup_source_register_ok e then (Inl ENOMEM, s)
          else
            let wl = brk s;
                obj = \<lparr>name = kstrndup nm len,
                       ws = (wakeup_source_register e)\<lparr>last_time := ktime_get e\<rparr>\<rparr>;
                s1 = s\<lparr>mem := (mem s)(wl \<mapsto> obj), brk := Suc wl\<rparr>;
                s2 = s1\<lparr>wakelocks_tree :=
                         rb_insert_color k (rb_link_node wl node (wakelocks_tree s1))\<rparr>;
                s3 = wakelocks_lru_add wl s2;
                s4 = increment_wakelocks_number k s3
            in (Inr wl, s4))"

subsection \<open>The wakelock filter\<close>

definition blocked_wakelocks :: "string list" where
  "blocked_wakelocks =
     [''ufs_hba'', ''ufs_pm'', ''ufsclks'', ''ufs-event'', ''ufs-busmon'',
      ''scsi_eh'', ''sdcardfs'', ''vold'',
      ''wlan_timer'', ''wifi_low_latency'',
      ''net_scheduler'', ''ipa_ws'',
      ''logd'', ''dp_wakelock'', ''system_suspend'', ''ssr'']"

definition wakelock_filter_sensor_event_start :: "registry \<Rightarrow> registry" where
  "wakelock_filter_sensor_event_start s = s\<lparr>sensor_event_active := True\<rparr>"

definition wakelock_filter_sensor_event_end :: "registry \<Rightarrow> registry" where
  "wakelock_filter_sensor_event_end s = s\<lparr>sensor_event_active := False\<rparr>"

fun blocked_scan :: "string \<Rightarrow> string list \<Rightarrow> bool" where
  \<comment> \<open>the \<^verbatim>\<open>for\<close> loop over the table\<close>
  "blocked_scan nm [] = False"
| "blocked_scan nm (w # rest) = (if found (strstr nm w) then True else blocked_scan nm rest)"

definition should_block_wakelock :: "registry \<Rightarrow> string \<Rightarrow> bool" where
  "should_block_wakelock s nm =
     (if sensor_event_active s then False
      else if found (strstr nm ''dt2w'') \<or> found (strstr nm ''double_tap'') \<or>
              found (strstr nm ''faceunlock'') \<or> found (strstr nm ''facerecog'') \<or>
              found (strstr nm ''media'') \<or> found (strstr nm ''audio'') \<or>
              found (strstr nm ''video'')
      then False
      else blocked_scan nm blocked_wakelocks)"

subsection \<open>The entry points\<close>

definition timeout_to_msec :: "64 word \<Rightarrow> 64 word" where
  \<comment> \<open>\<^verbatim>\<open>timeout_ms = timeout_ns + NSEC_PER_MSEC - 1; do_div(timeout_ms, NSEC_PER_MSEC)\<close>\<close>
  "timeout_to_msec timeout_ns = (timeout_ns + NSEC_PER_MSEC - 1) div NSEC_PER_MSEC"

definition pm_wake_lock :: "kernel \<Rightarrow> env \<Rightarrow> string \<Rightarrow> registry \<Rightarrow> (errno + unit) \<times> registry" where
  "pm_wake_lock k e buf s =
     (if \<not> capable e then (Inl EPERM, s)
      else
        let str = dropWhile (\<lambda>c. \<not> isspace c) buf;
            len = length buf - length str
        in if len = 0 then (Inl EINVAL, s)
           else if screen_is_off s \<and> should_block_wakelock s buf then (Inr (), s)
           else
             (case (if str \<noteq> [] \<and> hd str \<noteq> newline then kstrtou64 (skip_spaces str) else Inr 0) of
                Inl ret \<Rightarrow> (Inl EINVAL, s)
              | Inr timeout_ns \<Rightarrow>
                  (case wakelock_lookup_add k e buf len True s of
                     (Inl err, s1) \<Rightarrow> (Inl err, s1)
                   | (Inr wl, s1) \<Rightarrow>
                       let s2 = (if timeout_ns \<noteq> 0
                                 then pm_wakeup_event e wl (timeout_to_msec timeout_ns) s1
                                 else pm_stay_awake e wl s1)
                       in (Inr (), wakelocks_lru_most_recent wl s2))))"

definition pm_wake_unlock :: "kernel \<Rightarrow> env \<Rightarrow> string \<Rightarrow> registry \<Rightarrow> (errno + unit) \<times> registry" where
  "pm_wake_unlock k e buf s =
     (if \<not> capable e then (Inl EPERM, s)
      else if length buf = 0 then (Inl EINVAL, s)
      else
        let len = (if last buf = newline then length buf - 1 else length buf)
        in if len = 0 then (Inl EINVAL, s)
           else
             (case wakelock_lookup_add k e buf len False s of
                (Inl err, s1) \<Rightarrow> (Inl err, s1)
              | (Inr wl, s1) \<Rightarrow>
                  (Inr (), wakelocks_gc e (wakelocks_lru_most_recent wl (pm_relax e wl s1)))))"

definition pm_show_wakelocks :: "bool \<Rightarrow> registry \<Rightarrow> string" where
  "pm_show_wakelocks show_active s =
     concat (map (\<lambda>a. name (deref (mem s) a) @ '' '')
               (filter (\<lambda>a. active (ws (deref (mem s) a)) = show_active)
                  (inorder (wakelocks_tree s)))) @ [newline]"

subsection \<open>Notions used to state the properties\<close>

definition name_token :: "string \<Rightarrow> string" where
  \<comment> \<open>the requested name: the leading run of non-space bytes of the request\<close>
  "name_token buf = takeWhile (\<lambda>c. \<not> isspace c) buf"

definition after_name :: "string \<Rightarrow> string" where
  \<comment> \<open>what follows the name in the request\<close>
  "after_name buf = dropWhile (\<lambda>c. \<not> isspace c) buf"

definition vetoed :: "registry \<Rightarrow> string \<Rightarrow> bool" where
  \<comment> \<open>the condition under which \<^verbatim>\<open>pm_wake_lock\<close> drops a request\<close>
  "vetoed s buf = (screen_is_off s \<and> should_block_wakelock s buf)"

subsection \<open>A kernel without rebalancing, and two callers\<close>

text \<open>
  An instance of the red-black contract that never rebalances, a privileged and an
  unprivileged caller, and a registry whose screen is off: the concrete inputs on which
  the model is run below.
\<close>

fun spine :: "addr list \<Rightarrow> addr tree" where
  "spine [] = Leaf"
| "spine (a # as) = Node Leaf a (spine as)"

definition plain_kernel :: "nat \<Rightarrow> kernel" where
  "plain_kernel n =
     \<lparr>CONFIG_PM_WAKELOCKS_LIMIT = n, rb_insert_color = (\<lambda>t. t),
      rb_erase = (\<lambda>a t. spine (removeAll a (inorder t)))\<rparr>"

definition user :: env where
  "user = \<lparr>capable = True, ktime_get = 1000, kzalloc_ok = True, kstrndup_ok = True,
           wakeup_source_register_ok = True, idle_cpu = False\<rparr>"

definition nobody :: env where
  "nobody = user\<lparr>capable := False\<rparr>"

definition dark :: registry where
  "dark = init_registry\<lparr>screen_is_off := True\<rparr>"

definition always_allowed :: "string list" where
  \<comment> \<open>the literals of the always-allow test of \<^verbatim>\<open>should_block_wakelock\<close>, as a list\<close>
  "always_allowed =
     [''dt2w'', ''double_tap'', ''faceunlock'', ''facerecog'', ''media'', ''audio'', ''video'']"

definition three_locks :: registry where
  \<comment> \<open>the registry after a privileged caller acquired a, b and c under a limit of 2\<close>
  "three_locks =
     snd (pm_wake_lock (plain_kernel 2) user ''c''
       (snd (pm_wake_lock (plain_kernel 2) user ''b''
         (snd (pm_wake_lock (plain_kernel 2) user ''a'' init_registry)))))"

subsection \<open>Well-formed registries\<close>

text \<open>
  The key of a node is the name of its wakelock. A registry is well formed when the tree
  is a search tree for the lexicographic order on names (bytes compared as unsigned char,
  a proper prefix before its extensions), the tree and the LRU list hold exactly the
  allocated wakelocks, the LRU list has no repetition, and every allocated address is
  below the allocation mark.
\<close>

definition key_of :: "(addr \<rightharpoonup> wakelock) \<Rightarrow> addr \<Rightarrow> string" where
  "key_of m a = name (deref m a)"

definition wf_registry :: "registry \<Rightarrow> bool" where
  "wf_registry s \<longleftrightarrow>
     sorted_wrt (<) (map (key_of (mem s)) (inorder (wakelocks_tree s))) \<and>
     set (inorder (wakelocks_tree s)) = dom (mem s) \<and>
     set (wakelocks_lru_list s) = dom (mem s) \<and>
     distinct (wakelocks_lru_list s) \<and>
     dom (mem s) \<subseteq> {..< brk s}"

definition created :: "kernel \<Rightarrow> env \<Rightarrow> string \<Rightarrow> nat \<Rightarrow> dir list \<Rightarrow> registry \<Rightarrow> registry" where
  \<comment> \<open>the registry after \<^verbatim>\<open>wakelock_lookup_add\<close> created a wakelock in the slot \<open>node\<close>\<close>
  "created k e nm len node s =
     s\<lparr>mem := (mem s)(brk s \<mapsto>
            \<lparr>name = take len nm,
             ws = \<lparr>active = False, last_time = ktime_get e, timer_msec = None\<rparr>\<rparr>),
       brk := Suc (brk s),
       wakelocks_tree := rb_insert_color k (rb_link_node (brk s) node (wakelocks_tree s)),
       wakelocks_lru_list := brk s # wakelocks_lru_list s,
       number_of_wakelocks :=
         (if 0 < CONFIG_PM_WAKELOCKS_LIMIT k then number_of_wakelocks s + 1
          else number_of_wakelocks s)\<rparr>"

definition one_lock :: registry where
  \<comment> \<open>the registry after a was looked up and added to the empty registry\<close>
  "one_lock = snd (wakelock_lookup_add (plain_kernel 2) user ''a'' 1 True init_registry)"

definition ab_abc :: registry where
  \<comment> \<open>the registry after ab, then abc, were added to the empty registry\<close>
  "ab_abc =
     snd (wakelock_lookup_add (plain_kernel 2) user ''abc 7'' 3 True
       (snd (wakelock_lookup_add (plain_kernel 2) user ''ab'' 2 True init_registry)))"

subsection \<open>What a sweep removes\<close>

text \<open>
  A wakelock is stale when its idle time has reached the threshold of 300 seconds. The
  sweep visits the LRU list from its tail and stops at the first wakelock that is not
  stale: \<open>scanned\<close> is the run of wakelocks it visits before that, and \<open>doomed\<close>
  are the inactive ones among them. \<open>swept k D s s'\<close> says that \<open>s'\<close> is \<open>s\<close> without
  the wakelocks \<open>D\<close>: they are gone from the store, the LRU list and the tree, and the
  counter (when the build has one) went down by their number.
\<close>

definition stale :: "(addr \<rightharpoonup> wakelock) \<Rightarrow> ktime \<Rightarrow> addr \<Rightarrow> bool" where
  "stale m now a = (\<not> now - last_time (ws (deref m a)) < WL_GC_TIME_SEC * NSEC_PER_SEC)"

definition inactive :: "(addr \<rightharpoonup> wakelock) \<Rightarrow> addr \<Rightarrow> bool" where
  "inactive m a = (\<not> active (ws (deref m a)))"

definition doomed_of :: "(addr \<rightharpoonup> wakelock) \<Rightarrow> ktime \<Rightarrow> addr list \<Rightarrow> addr list" where
  "doomed_of m now xs = filter (inactive m) (takeWhile (stale m now) xs)"

definition scanned :: "ktime \<Rightarrow> registry \<Rightarrow> addr list" where
  "scanned now s = takeWhile (stale (mem s) now) (rev (wakelocks_lru_list s))"

definition doomed :: "ktime \<Rightarrow> registry \<Rightarrow> addr list" where
  "doomed now s = filter (inactive (mem s)) (scanned now s)"

text \<open>A registry of five wakelocks a to e, and a caller at time 400 s.\<close>

definition lock_of :: "string \<Rightarrow> bool \<Rightarrow> ktime \<Rightarrow> wakelock" where
  "lock_of n act t = \<lparr>name = n, ws = \<lparr>active = act, last_time = t, timer_msec = None\<rparr>\<rparr>"

definition five_locks :: registry where
  "five_locks =
     \<lparr>mem = [0 \<mapsto> lock_of ''a'' False 0, 1 \<mapsto> lock_of ''b'' True 50000000000,
             2 \<mapsto> lock_of ''c'' False 90000000000, 3 \<mapsto> lock_of ''d'' False 200000000000,
             4 \<mapsto> lock_of ''e'' False 0],
      brk = 5,
      wakelocks_tree =
        Node (Node Leaf 0 Leaf) 1 (Node (Node Leaf 2 Leaf) 3 (Node Leaf 4 Leaf)),
      wakelocks_lru_list = [4, 3, 2, 1, 0],
      number_of_wakelocks = 5, wakelocks_gc_count = 7, wakelock_work_pending = True,
      screen_is_off = False, sensor_event_active = False\<rparr>"

definition at_400s :: env where
  "at_400s = user\<lparr>ktime_get := 400000000000\<rparr>"

definition swept :: "kernel \<Rightarrow> addr list \<Rightarrow> registry \<Rightarrow> registry \<Rightarrow> bool" where
  "swept k D s s' \<longleftrightarrow>
     mem s' = (\<lambda>a. if a \<in> set D then None else mem s a) \<and>
     wakelocks_lru_list s' = filter (\<lambda>a. a \<notin> set D) (wakelocks_lru_list s) \<and>
     inorder (wakelocks_tree s') = filter (\<lambda>a. a \<notin> set D) (inorder (wakelocks_tree s)) \<and>
     number_of_wakelocks s' =
       (if 0 < CONFIG_PM_WAKELOCKS_LIMIT k then number_of_wakelocks s - of_nat (length D)
        else number_of_wakelocks s) \<and>
     brk s' = brk s \<and> screen_is_off s' = screen_is_off s \<and>
     sensor_event_active s' = sensor_event_active s"

section \<open>Properties\<close>

subsection \<open>Running the model\<close>

lemmas run_simps =
  pm_wake_lock_def pm_wake_unlock_def wakelock_lookup_add_def wakelocks_limit_exceeded_def
  increment_wakelocks_number_def wakelocks_lru_add_def wakelocks_lru_most_recent_def
  pm_stay_awake_def pm_wakeup_event_def pm_relax_def ws_update_def deref_def
  wakeup_source_register_def kstrndup_def skip_spaces_def isspace_def newline_def
  should_block_wakelock_def blocked_wakelocks_def found_def
  kstrtou64_def isdigit_def parse_integer_def digit_val_def
  plain_kernel_def user_def nobody_def dark_def init_registry_def Let_def

lemma len_name_token:
  "length buf - length (dropWhile (\<lambda>c. \<not> isspace c) buf) = length (name_token buf)"
  unfolding name_token_def
  by (metis add_diff_cancel_right' length_append takeWhile_dropWhile_id)

subsection \<open>The privilege check comes first\<close>

text \<open>
  C10. Both entry points test \<^verbatim>\<open>capable(CAP_BLOCK_SUSPEND)\<close> before anything else: for an
  unprivileged caller the result is \<open>EPERM\<close> and the registry is unchanged, whatever the
  request is. The instance below is a deny-listed name with the screen off, and the empty
  request: the unprivileged caller gets \<open>EPERM\<close> where the privileged one gets the silent
  success, respectively \<open>EINVAL\<close>.
\<close>

theorem unprivileged_denied:
  "\<not> capable e \<Longrightarrow>
     pm_wake_lock k e buf s = (Inl EPERM, s) \<and> pm_wake_unlock k e buf s = (Inl EPERM, s)"
  by (simp add: pm_wake_lock_def pm_wake_unlock_def)

theorem unprivileged_denied_witness:
  "\<not> capable nobody \<and>
   pm_wake_lock (plain_kernel 2) nobody ''logd'' dark = (Inl EPERM, dark) \<and>
   pm_wake_unlock (plain_kernel 2) nobody ''logd'' dark = (Inl EPERM, dark) \<and>
   pm_wake_lock (plain_kernel 2) nobody [] dark = (Inl EPERM, dark) \<and>
   fst (pm_wake_lock (plain_kernel 2) user ''logd'' dark) = Inr () \<and>
   fst (pm_wake_lock (plain_kernel 2) user [] dark) = Inl EINVAL"
proof -
  have n: "\<not> capable nobody" by (simp add: nobody_def user_def)
  have a: "fst (pm_wake_lock (plain_kernel 2) user ''logd'' dark) = Inr ()"
    by (simp add: run_simps)
  have b: "fst (pm_wake_lock (plain_kernel 2) user [] dark) = Inl EINVAL"
    by (simp add: run_simps)
  show ?thesis
    using n a b unprivileged_denied [OF n, of "plain_kernel 2" "''logd''" dark]
      unprivileged_denied [OF n, of "plain_kernel 2" "[]" dark]
    by simp
qed

subsection \<open>A vetoed request\<close>

text \<open>
  C4. When the filter vetoes a request of a privileged caller whose name is not empty,
  \<^verbatim>\<open>pm_wake_lock\<close> returns 0 and the registry is exactly what it was: no lock is
  created, and the tree, the LRU list and the counter are untouched.
\<close>

theorem vetoed_acquire_is_silent:
  assumes "capable e" and "name_token buf \<noteq> []" and "vetoed s buf"
  shows "pm_wake_lock k e buf s = (Inr (), s)"
  using assms unfolding pm_wake_lock_def Let_def len_name_token vetoed_def by simp

theorem vetoed_acquire_is_silent_witness:
  "capable user \<and> name_token ''logd 5'' \<noteq> [] \<and> vetoed dark ''logd 5'' \<and>
   pm_wake_lock (plain_kernel 2) user ''logd 5'' dark = (Inr (), dark)"
proof -
  have c: "capable user" by (simp add: user_def)
  have n: "name_token ''logd 5'' \<noteq> []" by (simp add: name_token_def isspace_def)
  have v: "vetoed dark ''logd 5''" by (simp add: vetoed_def run_simps)
  show ?thesis using c n v vetoed_acquire_is_silent [OF c n v, of "plain_kernel 2"] by simp
qed

subsection \<open>The limit on the number of wakelocks\<close>

text \<open>
  C1. With a configured maximum of N, the claim is that N distinct names can be acquired,
  that the next distinct name fails with \<open>ENOSPC\<close>, and that the count never exceeds N.
  The code tests \<^verbatim>\<open>number_of_wakelocks > CONFIG_PM_WAKELOCKS_LIMIT\<close> before it
  increments, so it admits one lock more. Run with N = 2 from the empty registry: the
  names a, b and c are all created, the count is 3, and only the fourth name d is refused;
  an existing name can still be acquired.
\<close>

theorem limit_admits_one_more:
  "fst (pm_wake_lock (plain_kernel 2) user ''a'' init_registry) = Inr () \<and>
   fst (pm_wake_lock (plain_kernel 2) user ''b''
         (snd (pm_wake_lock (plain_kernel 2) user ''a'' init_registry))) = Inr () \<and>
   fst (pm_wake_lock (plain_kernel 2) user ''c''
         (snd (pm_wake_lock (plain_kernel 2) user ''b''
           (snd (pm_wake_lock (plain_kernel 2) user ''a'' init_registry))))) = Inr () \<and>
   number_of_wakelocks three_locks = 3 \<and>
   inorder (wakelocks_tree three_locks) = [0, 1, 2] \<and>
   wakelocks_lru_list three_locks = [2, 1, 0] \<and>
   map_option name (mem three_locks 0) = Some ''a'' \<and>
   map_option name (mem three_locks 1) = Some ''b'' \<and>
   map_option name (mem three_locks 2) = Some ''c'' \<and>
   pm_wake_lock (plain_kernel 2) user ''d'' three_locks = (Inl ENOSPC, three_locks) \<and>
   fst (pm_wake_lock (plain_kernel 2) user ''a'' three_locks) = Inr ()"
  by (simp add: three_locks_def run_simps)

subsection \<open>The filter\<close>

lemma found_strstr: "found (strstr s1 s2) \<longleftrightarrow> sublist s2 s1"
proof (induction s1)
  case Nil
  then show ?case by (simp add: found_def)
next
  case (Cons c s1)
  then show ?case by (auto simp: found_def sublist_Cons_right)
qed

lemma blocked_scan_iff: "blocked_scan nm tab \<longleftrightarrow> (\<exists>w \<in> set tab. sublist w nm)"
  by (induction tab) (auto simp: found_strstr)

text \<open>
  As a function of the string it is handed, the filter decides as the specification
  says: the screen is off, no sensor event is in progress, the string contains none of
  the always-allowed markers and at least one of the blocked ones.
\<close>

theorem veto_iff:
  "vetoed s buf \<longleftrightarrow>
     screen_is_off s \<and> \<not> sensor_event_active s \<and>
     (\<forall>w \<in> set always_allowed. \<not> sublist w buf) \<and>
     (\<exists>w \<in> set blocked_wakelocks. sublist w buf)"
  by (auto simp: vetoed_def should_block_wakelock_def blocked_scan_iff found_strstr
      always_allowed_def)

theorem veto_iff_witness:
  "vetoed dark ''logd'' \<and> \<not> vetoed dark ''logd_audio'' \<and> \<not> vetoed init_registry ''logd'' \<and>
   \<not> vetoed (wakelock_filter_sensor_event_start dark) ''logd''"
  using veto_iff [of dark "''logd''"] veto_iff [of dark "''logd_audio''"]
    veto_iff [of init_registry "''logd''"]
    veto_iff [of "wakelock_filter_sensor_event_start dark" "''logd''"]
  by (simp add: dark_def init_registry_def wakelock_filter_sensor_event_start_def
      always_allowed_def blocked_wakelocks_def sublist_code)

text \<open>
  C3. The claim is about the requested name. \<^verbatim>\<open>pm_wake_lock\<close> hands the filter the whole
  request \<^verbatim>\<open>buf\<close>, not its first \<^verbatim>\<open>len\<close> bytes, so the bytes after the name are searched
  too. With the screen off and no sensor event: the request made of the name logd, a
  newline and the word audio has the deny-listed name logd, which alone is vetoed, yet the
  request is let through and the lock logd is created; the request "foo logd" has the
  clean name foo, yet it is vetoed.
\<close>

theorem filter_reads_whole_request:
  "name_token (''logd'' @ newline # ''audio'') = ''logd'' \<and>
   vetoed dark ''logd'' \<and>
   \<not> vetoed dark (''logd'' @ newline # ''audio'') \<and>
   fst (pm_wake_lock (plain_kernel 2) user (''logd'' @ newline # ''audio'') dark) = Inr () \<and>
   map_option name
     (mem (snd (pm_wake_lock (plain_kernel 2) user (''logd'' @ newline # ''audio'') dark)) 0) =
     Some ''logd'' \<and>
   wakelocks_lru_list
     (snd (pm_wake_lock (plain_kernel 2) user (''logd'' @ newline # ''audio'') dark)) = [0] \<and>
   name_token ''foo logd'' = ''foo'' \<and>
   \<not> vetoed dark ''foo'' \<and>
   vetoed dark ''foo logd'' \<and>
   pm_wake_lock (plain_kernel 2) user ''foo logd'' dark = (Inr (), dark)"
  by (simp add: vetoed_def name_token_def run_simps)

subsection \<open>A malformed timeout\<close>

text \<open>
  C5, as the code has it. A privileged request is refused with \<open>EINVAL\<close>, the registry
  unchanged, when what follows the name is not empty, does not begin with a newline, and
  (after its leading white space) is not a decimal unsigned 64-bit number, provided the
  filter does not veto the request. The filter is consulted before the timeout is parsed,
  and a tail that begins with a newline is not parsed at all.
\<close>

theorem malformed_timeout_rejected:
  assumes "capable e"
    and "\<not> (name_token buf \<noteq> [] \<and> vetoed s buf)"
    and "after_name buf \<noteq> []" and "hd (after_name buf) \<noteq> newline"
    and "kstrtou64 (skip_spaces (after_name buf)) = Inl err"
  shows "pm_wake_lock k e buf s = (Inl EINVAL, s)"
  using assms
  unfolding pm_wake_lock_def Let_def len_name_token vetoed_def after_name_def
  by auto

theorem malformed_timeout_rejected_witness:
  "capable user \<and> \<not> (name_token ''foo 1.5'' \<noteq> [] \<and> vetoed dark ''foo 1.5'') \<and>
   after_name ''foo 1.5'' \<noteq> [] \<and> hd (after_name ''foo 1.5'') \<noteq> newline \<and>
   kstrtou64 (skip_spaces (after_name ''foo 1.5'')) = Inl EINVAL \<and>
   pm_wake_lock (plain_kernel 2) user ''foo 1.5'' dark = (Inl EINVAL, dark)"
proof -
  have c: "capable user" by (simp add: user_def)
  have v: "\<not> (name_token ''foo 1.5'' \<noteq> [] \<and> vetoed dark ''foo 1.5'')"
    by (simp add: vetoed_def run_simps)
  have a: "after_name ''foo 1.5'' \<noteq> []" by (simp add: after_name_def isspace_def)
  have h: "hd (after_name ''foo 1.5'') \<noteq> newline"
    by (simp add: after_name_def isspace_def newline_def)
  have p: "kstrtou64 (skip_spaces (after_name ''foo 1.5'')) = Inl EINVAL"
    by (simp add: after_name_def run_simps)
  show ?thesis
    using c v a h p malformed_timeout_rejected [OF c v a h p, of "plain_kernel 2"] by simp
qed

text \<open>
  C5, as the claim has it, fails twice. The request "logd x" with the screen off has a
  tail that is no number, and returns 0: it is vetoed before the tail is looked at. The
  request made of foo, a newline and bar has a tail that is neither a lone newline nor a
  number, and it creates the lock foo.
\<close>

theorem malformed_timeout_not_always_rejected:
  "capable user \<and>
   name_token ''logd x'' = ''logd'' \<and> after_name ''logd x'' = '' x'' \<and>
   kstrtou64 (skip_spaces '' x'') = Inl EINVAL \<and>
   pm_wake_lock (plain_kernel 2) user ''logd x'' dark = (Inr (), dark) \<and>
   name_token (''foo'' @ newline # ''bar'') = ''foo'' \<and>
   after_name (''foo'' @ newline # ''bar'') = newline # ''bar'' \<and>
   kstrtou64 (skip_spaces (newline # ''bar'')) = Inl EINVAL \<and>
   fst (pm_wake_lock (plain_kernel 2) user (''foo'' @ newline # ''bar'') init_registry) =
     Inr () \<and>
   map_option name
     (mem (snd (pm_wake_lock (plain_kernel 2) user (''foo'' @ newline # ''bar'') init_registry))
        0) = Some ''foo'' \<and>
   wakelocks_lru_list
     (snd (pm_wake_lock (plain_kernel 2) user (''foo'' @ newline # ''bar'') init_registry)) =
     [0]"
  by (simp add: name_token_def after_name_def run_simps)

subsection \<open>Rounding the timeout\<close>

text \<open>
  As long as the addition does not wrap, the timeout in milliseconds is the timeout in
  nanoseconds divided by 1,000,000 and rounded up.
\<close>

theorem timeout_to_msec_exact:
  assumes "unat t \<le> 2 ^ 64 - 1000000"
  shows "unat (timeout_to_msec t) = (unat t + 999999) div 1000000"
proof -
  have "unat (t + 1000000 - 1) = unat t + 999999"
    using assms by (simp add: unat_word_ariths)
  then show ?thesis
    by (simp add: timeout_to_msec_def NSEC_PER_MSEC_def unat_div)
qed

theorem timeout_to_msec_exact_witness:
  "unat (1 :: 64 word) \<le> 2 ^ 64 - 1000000 \<and> unat (timeout_to_msec 1) = 1"
  using timeout_to_msec_exact [of 1] by simp

text \<open>
  C9. The claim is that every positive timeout is rounded up to whole milliseconds. The
  sum \<^verbatim>\<open>timeout_ns + NSEC_PER_MSEC - 1\<close> is a \<^verbatim>\<open>u64\<close> and wraps for the largest
  timeouts: the request "x 18446744073709551615" is accepted, and the wakeup source is
  armed with 0 milliseconds instead of 18446744073710.
\<close>

theorem timeout_rounding_wraps:
  "timeout_to_msec 18446744073709551615 = 0 \<and>
   kstrtou64 ''18446744073709551615'' = Inr 18446744073709551615 \<and>
   fst (pm_wake_lock (plain_kernel 2) user ''x 18446744073709551615'' init_registry) = Inr () \<and>
   mem (snd (pm_wake_lock (plain_kernel 2) user ''x 18446744073709551615'' init_registry)) 0 =
     Some \<lparr>name = ''x'', ws = \<lparr>active = True, last_time = 1000, timer_msec = Some 0\<rparr>\<rparr>"
  by (simp add: run_simps timeout_to_msec_def NSEC_PER_MSEC_def)

subsection \<open>The name index is a search tree\<close>

lemma strncmp_zero: "strncmp cs ct n = 0 \<longleftrightarrow> take n cs = take n ct"
  by (induction cs ct n rule: strncmp.induct) auto

lemma strncmp_neg: "strncmp cs ct n < 0 \<longleftrightarrow> take n cs < take n ct"
  by (induction cs ct n rule: strncmp.induct) (auto simp: less_char_def)

lemma take_le_self: "take n (w :: string) \<le> w"
proof (induction w arbitrary: n)
  case Nil
  then show ?case by simp
next
  case (Cons c w)
  then show ?case by (cases n) auto
qed

lemma take_mono_lex: "(xs :: string) \<le> ys \<Longrightarrow> take n xs \<le> take n ys"
proof (induction n arbitrary: xs ys)
  case 0
  then show ?case by simp
next
  case (Suc n)
  show ?case
  proof (cases xs)
    case Nil
    then show ?thesis by simp
  next
    case xs: (Cons x xs')
    show ?thesis
    proof (cases ys)
      case Nil
      with Suc.prems xs show ?thesis by simp
    next
      case ys: (Cons y ys')
      with Suc.prems xs Suc.IH [of xs' ys'] show ?thesis by auto
    qed
  qed
qed

lemma walk_hit: "(strncmp nm w len = 0 \<and> \<not> len < length w) \<longleftrightarrow> take len nm = w"
  by (auto simp: strncmp_zero)

lemma walk_left:
  assumes "take len nm \<noteq> w"
  shows "(if strncmp nm w len = 0 then - 1 else strncmp nm w len) < 0 \<longleftrightarrow> take len nm < w"
proof (cases "strncmp nm w len = 0")
  case True
  then have eq: "take len nm = take len w" by (simp add: strncmp_zero)
  have "take len w \<le> w" by (rule take_le_self)
  moreover from eq assms have "take len w \<noteq> w" by simp
  ultimately have "take len w < w" by (rule le_neq_trans)
  with eq True show ?thesis by simp
next
  case False
  show ?thesis
  proof (cases "strncmp nm w len < 0")
    case True
    then have "take len nm < take len w" by (simp add: strncmp_neg)
    also have "take len w \<le> w" by (rule take_le_self)
    finally show ?thesis using True False by simp
  next
    case pos: False
    with False have "\<not> take len nm < take len w" "take len nm \<noteq> take len w"
      by (simp_all add: strncmp_neg strncmp_zero)
    then have lt: "take len w < take len nm" by simp
    have "\<not> take len nm < w"
    proof
      assume "take len nm < w"
      then have "take len (take len nm) \<le> take len w" by (intro take_mono_lex) simp
      with lt show False by simp
    qed
    with pos False show ?thesis by simp
  qed
qed


lemma sorted_node:
  "sorted_wrt (<) (map f (inorder (Node l x r))) \<Longrightarrow>
     sorted_wrt (<) (map f (inorder l)) \<and> sorted_wrt (<) (map f (inorder r)) \<and>
     (\<forall>y \<in> set (inorder l). f y < f x) \<and> (\<forall>z \<in> set (inorder r). f x < f z)"
  by (auto simp: sorted_wrt_append)

lemma walk_Node:
  "walk m nm len (Node l x r) =
     (if take len nm = key_of m x then Inl x
      else if take len nm < key_of m x
           then (case walk m nm len l of Inl y \<Rightarrow> Inl y | Inr p \<Rightarrow> Inr (rb_left # p))
           else (case walk m nm len r of Inl y \<Rightarrow> Inl y | Inr p \<Rightarrow> Inr (rb_right # p)))"
proof (cases "take len nm = name (deref m x)")
  case True
  then show ?thesis unfolding walk.simps Let_def walk_hit key_of_def by simp
next
  case False
  note wl = walk_left [OF False]
  show ?thesis unfolding walk.simps Let_def walk_hit wl key_of_def using False by simp
qed



lemma walk_Node_eq:
  "take len nm = key_of m x \<Longrightarrow> walk m nm len (Node l x r) = Inl x"
  by (subst walk_Node) simp

lemma walk_Node_lt:
  assumes "take len nm < key_of m x"
  shows "walk m nm len (Node l x r) =
       (case walk m nm len l of Inl y \<Rightarrow> Inl y | Inr p \<Rightarrow> Inr (rb_left # p))"
proof -
  from assms have "take len nm \<noteq> key_of m x" by simp
  with assms show ?thesis by (subst walk_Node) simp
qed

lemma walk_Node_gt:
  assumes "key_of m x < take len nm"
  shows "walk m nm len (Node l x r) =
       (case walk m nm len r of Inl y \<Rightarrow> Inl y | Inr p \<Rightarrow> Inr (rb_right # p))"
proof -
  from assms have "take len nm \<noteq> key_of m x" "\<not> take len nm < key_of m x" by auto
  then show ?thesis by (subst walk_Node) simp
qed

lemma walk_Inl:
  assumes "sorted_wrt (<) (map (key_of m) (inorder t))"
  shows "walk m nm len t = Inl a \<longleftrightarrow> a \<in> set (inorder t) \<and> key_of m a = take len nm"
  using assms
proof (induction t)
  case Leaf
  then show ?case by simp
next
  case (Node l x r)
  let ?k = "take len nm" and ?w = "key_of m x"
  from sorted_node [OF Node.prems(1)] have sl: "sorted_wrt (<) (map (key_of m) (inorder l))"
    and sr: "sorted_wrt (<) (map (key_of m) (inorder r))"
    and lo: "\<forall>y \<in> set (inorder l). key_of m y < ?w"
    and hi: "\<forall>z \<in> set (inorder r). ?w < key_of m z"
    by blast+
  consider (eq) "?k = ?w" | (lt) "?k < ?w" | (gt) "?w < ?k"
    by (metis linorder_less_linear)
  then show ?case
  proof cases
    case eq
    then have "walk m nm len (Node l x r) = Inl x"
      by (rule walk_Node_eq)
    moreover have "a \<in> set (inorder (Node l x r)) \<and> key_of m a = ?k \<longleftrightarrow> a = x"
      using eq lo hi by auto
    ultimately show ?thesis by auto
  next
    case lt
    then have "walk m nm len (Node l x r) =
            (case walk m nm len l of Inl y \<Rightarrow> Inl y | Inr p \<Rightarrow> Inr (rb_left # p))"
      by (rule walk_Node_lt)
    moreover have "a \<in> set (inorder (Node l x r)) \<and> key_of m a = ?k \<longleftrightarrow>
                   a \<in> set (inorder l) \<and> key_of m a = ?k"
      using lt hi by auto
    ultimately show ?thesis using Node.IH(1) [OF sl] by (auto split: sum.splits)
  next
    case gt
    then have "walk m nm len (Node l x r) =
            (case walk m nm len r of Inl y \<Rightarrow> Inl y | Inr p \<Rightarrow> Inr (rb_right # p))"
      by (rule walk_Node_gt)
    moreover have "a \<in> set (inorder (Node l x r)) \<and> key_of m a = ?k \<longleftrightarrow>
                   a \<in> set (inorder r) \<and> key_of m a = ?k"
      using gt lo by auto
    ultimately show ?thesis using Node.IH(2) [OF sr] by (auto split: sum.splits)
  qed
qed

lemma walk_Inr:
  assumes "sorted_wrt (<) (map (key_of m) (inorder t))" and "walk m nm len t = Inr p"
  shows "\<exists>L1 L2. inorder t = L1 @ L2 \<and> inorder (rb_link_node new p t) = L1 @ new # L2 \<and>
           (\<forall>y \<in> set L1. key_of m y < take len nm) \<and>
           (\<forall>z \<in> set L2. take len nm < key_of m z)"
  using assms
proof (induction t arbitrary: p)
  case Leaf
  then show ?case by simp
next
  case (Node l x r)
  let ?k = "take len nm" and ?w = "key_of m x"
  from sorted_node [OF Node.prems(1)] have sl: "sorted_wrt (<) (map (key_of m) (inorder l))"
    and sr: "sorted_wrt (<) (map (key_of m) (inorder r))"
    and lo: "\<forall>y \<in> set (inorder l). key_of m y < ?w"
    and hi: "\<forall>z \<in> set (inorder r). ?w < key_of m z"
    by blast+
  have ne: "?k \<noteq> ?w"
    using Node.prems(2) walk_Node_eq [of len nm m x l r] by auto
  show ?case
  proof (cases "?k < ?w")
    case True
    with Node.prems(2) obtain q where q: "walk m nm len l = Inr q" "p = rb_left # q"
      by (auto simp add: walk_Node_lt simp del: walk.simps split: sum.splits)
    from Node.IH(1) [OF sl q(1)] obtain L1 L2 where
      L: "inorder l = L1 @ L2" "inorder (rb_link_node new q l) = L1 @ new # L2"
        "\<forall>y \<in> set L1. key_of m y < ?k" "\<forall>z \<in> set L2. ?k < key_of m z"
      by blast
    have hi': "\<forall>z \<in> set (L2 @ x # inorder r). ?k < key_of m z"
      using L(4) True hi by auto
    have i1: "inorder (Node l x r) = L1 @ (L2 @ x # inorder r)"
      by (simp add: L(1))
    have i2: "inorder (rb_link_node new p (Node l x r)) = L1 @ new # (L2 @ x # inorder r)"
      by (simp add: L(2) q(2))
    from i1 i2 L(3) hi' show ?thesis by blast
  next
    case False
    with ne have gt: "?w < ?k" by simp
    from gt Node.prems(2) obtain q where q: "walk m nm len r = Inr q" "p = rb_right # q"
      by (auto simp add: walk_Node_gt simp del: walk.simps split: sum.splits)
    from Node.IH(2) [OF sr q(1)] obtain L1 L2 where
      L: "inorder r = L1 @ L2" "inorder (rb_link_node new q r) = L1 @ new # L2"
        "\<forall>y \<in> set L1. key_of m y < ?k" "\<forall>z \<in> set L2. ?k < key_of m z"
      by blast
    have lo': "\<forall>y \<in> set (inorder l @ x # L1). key_of m y < ?k"
      using L(3) gt lo by auto
    have i1: "inorder (Node l x r) = (inorder l @ x # L1) @ L2"
      by (simp add: L(1))
    have i2: "inorder (rb_link_node new p (Node l x r)) = (inorder l @ x # L1) @ new # L2"
      by (simp add: L(2) q(2))
    from i1 i2 lo' L(4) show ?thesis by blast
  qed
qed

subsection \<open>Looking up and adding\<close>

lemma rb_ok_plain: "rb_ok (plain_kernel n)"
proof -
  have "inorder (spine xs) = xs" for xs by (induction xs) auto
  then show ?thesis by (simp add: rb_ok_def plain_kernel_def)
qed

lemma wf_init: "wf_registry init_registry"
  by (simp add: wf_registry_def init_registry_def)

lemma lookup_add_found:
  "walk (mem s) nm len (wakelocks_tree s) = Inl a \<Longrightarrow>
     wakelock_lookup_add k e nm len add s = (Inr a, s)"
  by (simp add: wakelock_lookup_add_def)

lemma lookup_add_absent:
  "walk (mem s) nm len (wakelocks_tree s) = Inr p \<Longrightarrow>
     wakelock_lookup_add k e nm len False s = (Inl EINVAL, s)"
  by (simp add: wakelock_lookup_add_def)

lemma lookup_add_new:
  assumes "walk (mem s) nm len (wakelocks_tree s) = Inr p"
    and "\<not> wakelocks_limit_exceeded k s"
    and "kzalloc_ok e" "kstrndup_ok e" "wakeup_source_register_ok e"
  shows "wakelock_lookup_add k e nm len True s = (Inr (brk s), created k e nm len p s)"
  using assms
  by (simp add: wakelock_lookup_add_def created_def Let_def kstrndup_def
      wakeup_source_register_def wakelocks_lru_add_def increment_wakelocks_number_def)

lemma lookup_add_error:
  assumes "walk (mem s) nm len (wakelocks_tree s) = Inr p"
    and "\<not> (add \<and> \<not> wakelocks_limit_exceeded k s \<and>
            kzalloc_ok e \<and> kstrndup_ok e \<and> wakeup_source_register_ok e)"
  shows "\<exists>err. wakelock_lookup_add k e nm len add s = (Inl err, s)"
  using assms by (auto simp add: wakelock_lookup_add_def)

lemma lookup_add_cases:
  assumes "wakelock_lookup_add k e nm len add s = (r, s')"
  obtains
    (hit) a where "walk (mem s) nm len (wakelocks_tree s) = Inl a" "r = Inr a" "s' = s"
  | (miss) p err where "walk (mem s) nm len (wakelocks_tree s) = Inr p" "r = Inl err" "s' = s"
  | (new) p where "walk (mem s) nm len (wakelocks_tree s) = Inr p" "add"
      "\<not> wakelocks_limit_exceeded k s" "r = Inr (brk s)" "s' = created k e nm len p s"
proof (cases "walk (mem s) nm len (wakelocks_tree s)")
  case (Inl a)
  with assms lookup_add_found [OF Inl, of k e add] show ?thesis by (intro hit [of a]) simp_all
next
  case (Inr p)
  show ?thesis
  proof (cases "add \<and> \<not> wakelocks_limit_exceeded k s \<and>
            kzalloc_ok e \<and> kstrndup_ok e \<and> wakeup_source_register_ok e")
    case True
    with lookup_add_new [OF Inr, of k e] assms show ?thesis
      by (intro new [of p]) (simp_all add: Inr)
  next
    case False
    from lookup_add_error [OF Inr False] assms obtain err where "r = Inl err" "s' = s"
      by auto
    with Inr show ?thesis by (intro miss [of p err]) simp_all
  qed
qed

lemma key_of_upd_other: "a \<noteq> b \<Longrightarrow> key_of (m(b \<mapsto> v)) a = key_of m a"
  by (simp add: key_of_def deref_def)

lemma key_of_upd_same: "key_of (m(b \<mapsto> v)) b = name v"
  by (simp add: key_of_def deref_def)

lemma wf_created:
  assumes rb: "rb_ok k" and wf: "wf_registry s"
    and w: "walk (mem s) nm len (wakelocks_tree s) = Inr p"
  shows "wf_registry (created k e nm len p s)"
proof -
  let ?new = "brk s" and ?m = "mem s" and ?k = "take len nm"
  let ?s' = "created k e nm len p s"
  from wf have srt: "sorted_wrt (<) (map (key_of ?m) (inorder (wakelocks_tree s)))"
    and tr: "set (inorder (wakelocks_tree s)) = dom ?m"
    and lru: "set (wakelocks_lru_list s) = dom ?m" "distinct (wakelocks_lru_list s)"
    and bd: "dom ?m \<subseteq> {..< ?new}"
    by (simp_all add: wf_registry_def)
  from bd have fresh: "?new \<notin> dom ?m" by auto
  from walk_Inr [OF srt w, of ?new] obtain L1 L2 where
    L: "inorder (wakelocks_tree s) = L1 @ L2"
       "inorder (rb_link_node ?new p (wakelocks_tree s)) = L1 @ ?new # L2"
       "\<forall>y \<in> set L1. key_of ?m y < ?k" "\<forall>z \<in> set L2. ?k < key_of ?m z"
    by blast
  have io: "inorder (wakelocks_tree ?s') = L1 @ ?new # L2"
    using rb L(2) by (simp add: created_def rb_ok_def)
  have nin: "?new \<notin> set L1" "?new \<notin> set L2"
    using fresh tr L(1) by auto
  have ko: "key_of (mem ?s') x = key_of ?m x" if "x \<noteq> ?new" for x
    using that by (simp add: created_def key_of_upd_other)
  have keys: "map (key_of (mem ?s')) L1 = map (key_of ?m) L1"
             "map (key_of (mem ?s')) L2 = map (key_of ?m) L2"
    using nin by (auto intro!: ko)
  have knew: "key_of (mem ?s') ?new = ?k"
    by (simp add: created_def key_of_upd_same)
  from srt L(1) have s12: "sorted_wrt (<) (map (key_of ?m) L1)"
    "sorted_wrt (<) (map (key_of ?m) L2)"
    "\<forall>y \<in> set L1. \<forall>z \<in> set L2. key_of ?m y < key_of ?m z"
    by (auto simp: sorted_wrt_append)
  have "sorted_wrt (<) (map (key_of (mem ?s')) (L1 @ ?new # L2))"
    using s12 L(3,4) by (auto simp: sorted_wrt_append keys knew)
  moreover have "set (L1 @ ?new # L2) = dom (mem ?s')"
    using tr L(1) by (auto simp: created_def)
  moreover have "set (wakelocks_lru_list ?s') = dom (mem ?s')"
    using lru by (auto simp: created_def)
  moreover have "distinct (wakelocks_lru_list ?s')"
    using lru fresh by (auto simp: created_def)
  moreover have "dom (mem ?s') \<subseteq> {..< brk ?s'}"
    using bd by (auto simp: created_def)
  ultimately show ?thesis by (simp add: wf_registry_def io)
qed

lemma wf_lookup_add:
  assumes "rb_ok k" and "wf_registry s" and "wakelock_lookup_add k e nm len add s = (r, s')"
  shows "wf_registry s'"
  using assms(3)
proof (cases rule: lookup_add_cases)
  case (new p)
  then show ?thesis using wf_created [OF assms(1,2)] by simp
qed (use assms(2) in simp_all)

lemma lookup_add_key:
  assumes "rb_ok k" and "wf_registry s"
    and "wakelock_lookup_add k e nm len add s = (Inr a, s')"
  shows "a \<in> dom (mem s') \<and> key_of (mem s') a = take len nm"
  using assms(3)
proof (cases rule: lookup_add_cases)
  case (hit b)
  from assms(2) have srt: "sorted_wrt (<) (map (key_of (mem s)) (inorder (wakelocks_tree s)))"
    and tr: "set (inorder (wakelocks_tree s)) = dom (mem s)"
    by (simp_all add: wf_registry_def)
  from hit walk_Inl [OF srt, of nm len b] tr show ?thesis by auto
next
  case (miss p err)
  then show ?thesis by simp
next
  case (new p)
  then show ?thesis by (auto simp: created_def key_of_upd_same)
qed

lemma lookup_add_frame:
  assumes "wf_registry s" and "wakelock_lookup_add k e nm len add s = (r, s')"
    and "b \<in> dom (mem s)"
  shows "mem s' b = mem s b"
  using assms(2)
proof (cases rule: lookup_add_cases)
  case (new p)
  from assms(1,3) have "b \<noteq> brk s" by (auto simp: wf_registry_def)
  with new show ?thesis by (simp add: created_def)
qed simp_all

lemma lookup_finds:
  assumes "wf_registry s" and "a \<in> dom (mem s)" and "key_of (mem s) a = take len nm"
  shows "wakelock_lookup_add k e nm len add s = (Inr a, s)"
proof -
  from assms(1) have srt: "sorted_wrt (<) (map (key_of (mem s)) (inorder (wakelocks_tree s)))"
    and tr: "set (inorder (wakelocks_tree s)) = dom (mem s)"
    by (simp_all add: wf_registry_def)
  from assms(2,3) tr walk_Inl [OF srt, of nm len a]
  have "walk (mem s) nm len (wakelocks_tree s) = Inl a" by simp
  then show ?thesis by (rule lookup_add_found)
qed

subsection \<open>Looking up twice\<close>

text \<open>
  C7. In a well-formed registry, when \<^verbatim>\<open>wakelock_lookup_add\<close> with
  \<^verbatim>\<open>add_if_not_found\<close> set returns a wakelock, a second call for the same name on the
  registry the first call left returns the same wakelock and leaves the registry as it
  is: the tree, the LRU list, the counter and the store are those of the first call.
\<close>

theorem find_or_create_idempotent:
  assumes "rb_ok k" and "wf_registry s"
    and "wakelock_lookup_add k e nm len True s = (Inr wl, s1)"
  shows "wakelock_lookup_add k e' nm len True s1 = (Inr wl, s1)"
proof -
  have "wf_registry s1" using assms by (rule wf_lookup_add)
  moreover have "wl \<in> dom (mem s1) \<and> key_of (mem s1) wl = take len nm"
    using assms by (rule lookup_add_key)
  ultimately show ?thesis by (simp add: lookup_finds)
qed


theorem find_or_create_idempotent_witness:
  "rb_ok (plain_kernel 2) \<and> wf_registry init_registry \<and>
   wakelock_lookup_add (plain_kernel 2) user ''a'' 1 True init_registry = (Inr 0, one_lock) \<and>
   wakelock_lookup_add (plain_kernel 2) user ''a'' 1 True one_lock = (Inr 0, one_lock)"
proof -
  have r: "wakelock_lookup_add (plain_kernel 2) user ''a'' 1 True init_registry = (Inr 0, one_lock)"
    by (simp add: one_lock_def prod_eq_iff run_simps eval_nat_numeral)
  show ?thesis
    using rb_ok_plain [of 2] wf_init r
      find_or_create_idempotent [OF rb_ok_plain wf_init r, of user]
    by simp
qed

subsection \<open>A name and its proper prefix\<close>

text \<open>
  C8. Two names of which one is a proper prefix of the other are different keys. A name
  is handed over as the first \<open>len\<close> bytes of a buffer. After both names have been
  created, in either order, the registry holds two different wakelocks, one under each
  name, and a lookup of either name returns the wakelock of that name and no other.
\<close>

theorem prefix_names_are_distinct_keys:
  assumes "rb_ok k" and "wf_registry s"
    and "strict_prefix (take l1 b1) (take l2 b2) \<or> strict_prefix (take l2 b2) (take l1 b1)"
    and "wakelock_lookup_add k e1 b1 l1 True s = (Inr w1, s1)"
    and "wakelock_lookup_add k e2 b2 l2 True s1 = (Inr w2, s2)"
  shows "w1 \<noteq> w2 \<and>
         map_option name (mem s2 w1) = Some (take l1 b1) \<and>
         map_option name (mem s2 w2) = Some (take l2 b2) \<and>
         w1 \<in> set (inorder (wakelocks_tree s2)) \<and> w2 \<in> set (inorder (wakelocks_tree s2)) \<and>
         wakelock_lookup_add k e b1 l1 add s2 = (Inr w1, s2) \<and>
         wakelock_lookup_add k e b2 l2 add s2 = (Inr w2, s2)"
proof -
  let ?x = "take l1 b1" and ?y = "take l2 b2"
  have wf1: "wf_registry s1" using assms(1,2,4) by (rule wf_lookup_add)
  have wf2: "wf_registry s2" using assms(1) wf1 assms(5) by (rule wf_lookup_add)
  from lookup_add_key [OF assms(1,2,4)]
  have k1: "w1 \<in> dom (mem s1)" "key_of (mem s1) w1 = ?x" by simp_all
  from lookup_add_key [OF assms(1) wf1 assms(5)]
  have k2: "w2 \<in> dom (mem s2)" "key_of (mem s2) w2 = ?y" by simp_all
  from lookup_add_frame [OF wf1 assms(5) k1(1)] have fr: "mem s2 w1 = mem s1 w1" .
  with k1 have k1': "w1 \<in> dom (mem s2)" "key_of (mem s2) w1 = ?x"
    by (auto simp: key_of_def deref_def)
  from assms(3) have "?x \<noteq> ?y" by auto
  with k1'(2) k2(2) have ne: "w1 \<noteq> w2" by auto
  have n1: "map_option name (mem s2 w1) = Some ?x"
    using k1' by (auto simp: key_of_def deref_def)
  have n2: "map_option name (mem s2 w2) = Some ?y"
    using k2 by (auto simp: key_of_def deref_def)
  have tr: "set (inorder (wakelocks_tree s2)) = dom (mem s2)"
    using wf2 by (simp add: wf_registry_def)
  have f1: "wakelock_lookup_add k e b1 l1 add s2 = (Inr w1, s2)"
    using wf2 k1' by (intro lookup_finds) simp_all
  have f2: "wakelock_lookup_add k e b2 l2 add s2 = (Inr w2, s2)"
    using wf2 k2 by (intro lookup_finds) simp_all
  from ne n1 n2 tr k1'(1) k2(1) f1 f2 show ?thesis by simp
qed

theorem prefix_names_are_distinct_keys_witness:
  "rb_ok (plain_kernel 2) \<and> wf_registry init_registry \<and>
   (strict_prefix (take 2 ''ab'') (take 3 ''abc 7'') \<or>
    strict_prefix (take 3 ''abc 7'') (take 2 ''ab'')) \<and>
   map_option name (mem ab_abc 0) = Some ''ab'' \<and>
   map_option name (mem ab_abc 1) = Some ''abc'' \<and>
   inorder (wakelocks_tree ab_abc) = [0, 1] \<and>
   wakelock_lookup_add (plain_kernel 2) user ''ab'' 2 False ab_abc = (Inr 0, ab_abc) \<and>
   wakelock_lookup_add (plain_kernel 2) user ''abc 7'' 3 False ab_abc = (Inr 1, ab_abc)"
proof -
  let ?s1 = "snd (wakelock_lookup_add (plain_kernel 2) user ''ab'' 2 True init_registry)"
  have p: "strict_prefix (take 2 ''ab'') (take 3 ''abc 7'') \<or>
           strict_prefix (take 3 ''abc 7'') (take 2 ''ab'')"
    by (simp add: strict_prefix_def)
  have r1: "wakelock_lookup_add (plain_kernel 2) user ''ab'' 2 True init_registry = (Inr 0, ?s1)"
    by (simp add: prod_eq_iff run_simps eval_nat_numeral)
  have r2: "wakelock_lookup_add (plain_kernel 2) user ''abc 7'' 3 True ?s1 = (Inr 1, ab_abc)"
    by (simp add: ab_abc_def prod_eq_iff run_simps eval_nat_numeral)
  have io: "inorder (wakelocks_tree ab_abc) = [0, 1]"
    by (simp add: ab_abc_def run_simps eval_nat_numeral)
  show ?thesis
    using rb_ok_plain [of 2] wf_init p io
      prefix_names_are_distinct_keys [OF rb_ok_plain [of 2] wf_init p r1 r2, of user False]
    by simp
qed

subsection \<open>The sweep\<close>

lemma gc_loop_Cons:
  "gc_loop k now (a # rest) s =
     (if \<not> stale (mem s) now a then s
      else if inactive (mem s) a then gc_loop k now rest (destroy_wakelock k a s)
      else gc_loop k now rest s)"
  by (simp add: stale_def inactive_def Let_def)

lemma doomed_of_Cons:
  "doomed_of m now (a # rest) =
     (if \<not> stale m now a then []
      else if inactive m a then a # doomed_of m now rest else doomed_of m now rest)"
  by (simp add: doomed_of_def)

lemma doomed_of_cong:
  assumes "\<And>b. b \<in> set xs \<Longrightarrow> m' b = m b"
  shows "doomed_of m' now xs = doomed_of m now xs"
proof -
  have "stale m' now b = stale m now b" "inactive m' b = inactive m b" if "b \<in> set xs" for b
    using assms [OF that] by (simp_all add: stale_def inactive_def deref_def)
  then have tw: "takeWhile (stale m' now) xs = takeWhile (stale m now) xs"
    by (intro takeWhile_cong) auto
  have "filter (inactive m') (takeWhile (stale m now) xs) =
        filter (inactive m) (takeWhile (stale m now) xs)"
    using \<open>\<And>b. b \<in> set xs \<Longrightarrow> inactive m' b = inactive m b\<close>
    by (intro filter_cong) (auto dest: set_takeWhileD)
  with tw show ?thesis by (simp add: doomed_of_def)
qed

lemma doomed_of_subset: "set (doomed_of m now xs) \<subseteq> set xs"
  by (auto simp: doomed_of_def dest: set_takeWhileD)

lemma destroy_fields:
  "mem (destroy_wakelock k a s) = (mem s)(a := None)"
  "wakelocks_lru_list (destroy_wakelock k a s) = remove1 a (wakelocks_lru_list s)"
  "wakelocks_tree (destroy_wakelock k a s) = rb_erase k a (wakelocks_tree s)"
  "number_of_wakelocks (destroy_wakelock k a s) =
     (if 0 < CONFIG_PM_WAKELOCKS_LIMIT k then number_of_wakelocks s - 1
      else number_of_wakelocks s)"
  "brk (destroy_wakelock k a s) = brk s"
  "screen_is_off (destroy_wakelock k a s) = screen_is_off s"
  "sensor_event_active (destroy_wakelock k a s) = sensor_event_active s"
  "wakelocks_gc_count (destroy_wakelock k a s) = wakelocks_gc_count s"
  "wakelock_work_pending (destroy_wakelock k a s) = wakelock_work_pending s"
  by (simp_all add: destroy_wakelock_def decrement_wakelocks_number_def)

lemma swept_nil: "swept k [] s s"
  by (simp add: swept_def)

lemma swept_step:
  assumes rb: "rb_ok k" and d: "distinct (wakelocks_lru_list s)"
    and sw: "swept k D (destroy_wakelock k a s) s'"
  shows "swept k (a # D) s s'"
proof -
  let ?s1 = "destroy_wakelock k a s"
  have r1: "remove1 a (wakelocks_lru_list s) = filter (\<lambda>b. b \<noteq> a) (wakelocks_lru_list s)"
    using d by (simp add: distinct_remove1_removeAll removeAll_filter_not_eq) metis
  have r2: "inorder (rb_erase k a (wakelocks_tree s)) =
            filter (\<lambda>b. b \<noteq> a) (inorder (wakelocks_tree s))"
    using rb by (simp add: rb_ok_def removeAll_filter_not_eq) metis
  have m: "mem s' = (\<lambda>b. if b \<in> set (a # D) then None else mem s b)"
    using sw by (auto simp: swept_def destroy_fields)
  have l: "wakelocks_lru_list s' = filter (\<lambda>b. b \<notin> set (a # D)) (wakelocks_lru_list s)"
    using sw r1 by (simp add: swept_def destroy_fields conj_commute)
  have t: "inorder (wakelocks_tree s') =
           filter (\<lambda>b. b \<notin> set (a # D)) (inorder (wakelocks_tree s))"
    using sw r2 by (simp add: swept_def destroy_fields conj_commute)
  have n: "number_of_wakelocks s' =
       (if 0 < CONFIG_PM_WAKELOCKS_LIMIT k
        then number_of_wakelocks s - of_nat (length (a # D))
        else number_of_wakelocks s)"
    using sw by (simp add: swept_def destroy_fields)
  from m l t n sw show ?thesis by (simp add: swept_def destroy_fields)
qed

lemma gc_loop_swept:
  assumes "rb_ok k" and "distinct xs" and "distinct (wakelocks_lru_list s)"
  shows "swept k (doomed_of (mem s) now xs) s (gc_loop k now xs s)"
  using assms(2,3)
proof (induction xs arbitrary: s)
  case Nil
  then show ?case by (simp add: doomed_of_def swept_nil)
next
  case (Cons a rest)
  show ?case
  proof (cases "stale (mem s) now a")
    case False
    then show ?thesis by (simp add: gc_loop_Cons doomed_of_Cons swept_nil del: gc_loop.simps)
  next
    case st: True
    show ?thesis
    proof (cases "inactive (mem s) a")
      case False
      with st Cons.IH [of s] Cons.prems show ?thesis
        by (simp add: gc_loop_Cons doomed_of_Cons del: gc_loop.simps)
    next
      case True
      let ?s1 = "destroy_wakelock k a s"
      have d1: "distinct (wakelocks_lru_list ?s1)"
        using Cons.prems(2) by (simp add: destroy_fields)
      from Cons.prems(1) have "a \<notin> set rest" "distinct rest" by simp_all
      then have "doomed_of (mem ?s1) now rest = doomed_of (mem s) now rest"
        by (intro doomed_of_cong) (auto simp: destroy_fields)
      with Cons.IH [OF \<open>distinct rest\<close> d1]
      have "swept k (doomed_of (mem s) now rest) ?s1 (gc_loop k now rest ?s1)" by simp
      from swept_step [OF assms(1) Cons.prems(2) this] st True show ?thesis
        by (simp add: gc_loop_Cons doomed_of_Cons del: gc_loop.simps)
    qed
  qed
qed


lemma doomed_eq: "doomed now s = doomed_of (mem s) now (rev (wakelocks_lru_list s))"
  by (simp add: doomed_def scanned_def doomed_of_def)

lemma gc_work_swept:
  assumes "rb_ok k" and "wf_registry s"
  shows "swept k (doomed (ktime_get e) s) s (wakelocks_gc_work k e s)"
proof -
  from assms(2) have d: "distinct (wakelocks_lru_list s)" by (simp add: wf_registry_def)
  then have "distinct (rev (wakelocks_lru_list s))" by simp
  from gc_loop_swept [OF assms(1) this d, of "ktime_get e"]
  show ?thesis by (simp add: wakelocks_gc_work_def doomed_eq swept_def)
qed

lemma doomed_inactive: "a \<in> set (doomed now s) \<Longrightarrow> \<not> active (ws (deref (mem s) a))"
  by (simp add: doomed_def inactive_def)

text \<open>
  C6. The sweep walks the LRU list from the least recently touched wakelock to the most
  recently touched one and stops at the first whose idle time is below 300 seconds.
  Every inactive wakelock met before that point is destroyed: it leaves the store, the
  LRU list and the tree, and the counter goes down by one for each. An active wakelock
  met before that point is kept and the walk goes on past it. Nothing else changes,
  except that the collection counter is reset.
\<close>

theorem gc_sweep_collects:
  assumes "rb_ok k" and "wf_registry s"
  shows "let D = doomed (ktime_get e) s; s' = wakelocks_gc_work k e s
         in (\<forall>a. mem s' a = (if a \<in> set D then None else mem s a)) \<and>
            wakelocks_lru_list s' = filter (\<lambda>a. a \<notin> set D) (wakelocks_lru_list s) \<and>
            inorder (wakelocks_tree s') =
              filter (\<lambda>a. a \<notin> set D) (inorder (wakelocks_tree s)) \<and>
            number_of_wakelocks s' =
              (if 0 < CONFIG_PM_WAKELOCKS_LIMIT k
               then number_of_wakelocks s - of_nat (length D)
               else number_of_wakelocks s) \<and>
            wakelocks_gc_count s' = 0"
  using gc_work_swept [OF assms, of e]
  by (simp add: swept_def Let_def wakelocks_gc_work_def)

lemma wf_five: "wf_registry five_locks"
  by (simp add: wf_registry_def five_locks_def key_of_def deref_def lock_of_def
      less_char_def lessThan_def) auto

lemma doomed_five: "doomed (ktime_get at_400s) five_locks = [0, 2]"
  by (simp add: doomed_def scanned_def stale_def inactive_def five_locks_def at_400s_def
      user_def deref_def lock_of_def WL_GC_TIME_SEC_def NSEC_PER_SEC_def)

theorem gc_sweep_collects_witness:
  "rb_ok (plain_kernel 5) \<and> wf_registry five_locks \<and>
   scanned (ktime_get at_400s) five_locks = [0, 1, 2] \<and>
   doomed (ktime_get at_400s) five_locks = [0, 2] \<and>
   (let s' = wakelocks_gc_work (plain_kernel 5) at_400s five_locks
    in map (\<lambda>a. map_option name (mem s' a)) [0, 1, 2, 3, 4] =
         [None, Some ''b'', None, Some ''d'', Some ''e''] \<and>
       wakelocks_lru_list s' = [4, 3, 1] \<and>
       inorder (wakelocks_tree s') = [1, 3, 4] \<and>
       number_of_wakelocks s' = 3 \<and> wakelocks_gc_count s' = 0)"
proof -
  have sc: "scanned (ktime_get at_400s) five_locks = [0, 1, 2]"
    by (simp add: scanned_def stale_def five_locks_def at_400s_def
      user_def deref_def lock_of_def WL_GC_TIME_SEC_def NSEC_PER_SEC_def)
  have f: "wakelocks_lru_list five_locks = [4, 3, 2, 1, 0]"
    "inorder (wakelocks_tree five_locks) = [0, 1, 2, 3, 4]"
    "number_of_wakelocks five_locks = 5"
    "map (\<lambda>a. map_option name (mem five_locks a)) [1, 3, 4] = [Some ''b'', Some ''d'', Some ''e'']"
    "CONFIG_PM_WAKELOCKS_LIMIT (plain_kernel 5) = 5"
    by (simp_all add: five_locks_def lock_of_def plain_kernel_def)
  show ?thesis
    using rb_ok_plain [of 5] wf_five sc doomed_five f
      gc_sweep_collects [OF rb_ok_plain [of 5] wf_five, of at_400s]
    by (simp add: Let_def)
qed

text \<open>
  C2. A wakelock that is active when the sweep reads it is not destroyed, however long
  it has been idle: the iteration that inspects it passes the registry on unchanged
  (or stops there), and after the whole sweep the wakelock is still in the store, in
  the LRU list and in the tree; the counter has gone down by the number of destroyed
  wakelocks only, and this one is not among them.
\<close>

theorem gc_spares_active:
  assumes "rb_ok k" and "wf_registry s" and "mem s a = Some wl" and "active (ws wl)"
  shows "gc_loop k now (a # rest) s =
           (if now - last_time (ws wl) < WL_GC_TIME_SEC * NSEC_PER_SEC then s
            else gc_loop k now rest s) \<and>
         (let D = doomed (ktime_get e) s; s' = wakelocks_gc_work k e s
          in a \<notin> set D \<and> mem s' a = Some wl \<and>
             a \<in> set (wakelocks_lru_list s') \<and> a \<in> set (inorder (wakelocks_tree s')) \<and>
             number_of_wakelocks s' =
               (if 0 < CONFIG_PM_WAKELOCKS_LIMIT k
                then number_of_wakelocks s - of_nat (length D)
                else number_of_wakelocks s))"
proof -
  from assms(3,4) have act: "active (ws (deref (mem s) a))" by (simp add: deref_def)
  have step: "gc_loop k now (a # rest) s =
           (if now - last_time (ws wl) < WL_GC_TIME_SEC * NSEC_PER_SEC then s
            else gc_loop k now rest s)"
    using assms(3,4) by (simp add: Let_def deref_def)
  let ?D = "doomed (ktime_get e) s" and ?s' = "wakelocks_gc_work k e s"
  from act doomed_inactive [of a "ktime_get e" s] have nd: "a \<notin> set ?D" by auto
  from assms(2,3) have mem: "a \<in> set (wakelocks_lru_list s)" "a \<in> set (inorder (wakelocks_tree s))"
    by (auto simp: wf_registry_def)
  from gc_work_swept [OF assms(1,2), of e] have sw: "swept k ?D s ?s'" .
  from sw nd assms(3) have "mem ?s' a = Some wl" by (simp add: swept_def)
  moreover from sw nd mem have "a \<in> set (wakelocks_lru_list ?s')"
    "a \<in> set (inorder (wakelocks_tree ?s'))" by (simp_all add: swept_def)
  moreover from sw have "number_of_wakelocks ?s' =
               (if 0 < CONFIG_PM_WAKELOCKS_LIMIT k
                then number_of_wakelocks s - of_nat (length ?D)
                else number_of_wakelocks s)" by (simp add: swept_def)
  ultimately show ?thesis using step nd by (simp add: Let_def)
qed

theorem gc_spares_active_witness:
  "rb_ok (plain_kernel 5) \<and> wf_registry five_locks \<and>
   mem five_locks 1 = Some (lock_of ''b'' True 50000000000) \<and>
   active (ws (lock_of ''b'' True 50000000000)) \<and>
   \<not> ktime_get at_400s - last_time (ws (lock_of ''b'' True 50000000000))
       < WL_GC_TIME_SEC * NSEC_PER_SEC \<and>
   (let s' = wakelocks_gc_work (plain_kernel 5) at_400s five_locks
    in mem s' 1 = Some (lock_of ''b'' True 50000000000) \<and>
       1 \<in> set (wakelocks_lru_list s') \<and> 1 \<in> set (inorder (wakelocks_tree s')) \<and>
       number_of_wakelocks s' = 3)"
proof -
  have m: "mem five_locks 1 = Some (lock_of ''b'' True 50000000000)"
    by (simp add: five_locks_def)
  have a: "active (ws (lock_of ''b'' True 50000000000))" by (simp add: lock_of_def)
  have t: "\<not> ktime_get at_400s - last_time (ws (lock_of ''b'' True 50000000000))
       < WL_GC_TIME_SEC * NSEC_PER_SEC"
    by (simp add: at_400s_def user_def lock_of_def WL_GC_TIME_SEC_def NSEC_PER_SEC_def)
  have f: "number_of_wakelocks five_locks = 5" "CONFIG_PM_WAKELOCKS_LIMIT (plain_kernel 5) = 5"
    by (simp_all add: five_locks_def plain_kernel_def)
  show ?thesis
    using rb_ok_plain [of 5] wf_five m a t f doomed_five
      gc_spares_active [OF rb_ok_plain [of 5] wf_five m a, of 0 "[]" at_400s]
    by (simp add: Let_def)
qed

subsection \<open>Well-formedness is kept\<close>

text \<open>
  The empty registry is well formed, and the two entry points and the sweep keep a
  registry well formed: well-formedness holds in every registry the operations can reach.
\<close>

lemma wf_ws_update:
  assumes "wf_registry s" and "wl \<in> dom (mem s)"
  shows "wf_registry (ws_update wl f s)"
proof -
  have k: "key_of (mem (ws_update wl f s)) a = key_of (mem s) a" for a
    by (simp add: ws_update_def key_of_def deref_def)
  then have "key_of (mem (ws_update wl f s)) = key_of (mem s)" by (rule ext)
  moreover have "dom (mem (ws_update wl f s)) = dom (mem s)"
    using assms(2) by (auto simp: ws_update_def)
  moreover have "wakelocks_tree (ws_update wl f s) = wakelocks_tree s"
    "wakelocks_lru_list (ws_update wl f s) = wakelocks_lru_list s"
    "brk (ws_update wl f s) = brk s"
    by (simp_all add: ws_update_def)
  ultimately show ?thesis using assms(1) by (simp add: wf_registry_def)
qed

lemma wf_lru_most_recent:
  assumes "wf_registry s" and "wl \<in> dom (mem s)"
  shows "wf_registry (wakelocks_lru_most_recent wl s)"
proof -
  from assms have "wl \<in> set (wakelocks_lru_list s)" "distinct (wakelocks_lru_list s)"
    by (simp_all add: wf_registry_def)
  then have "set (wl # remove1 wl (wakelocks_lru_list s)) = set (wakelocks_lru_list s)"
    "distinct (wl # remove1 wl (wakelocks_lru_list s))"
    by auto
  with assms(1) show ?thesis
    by (simp add: wf_registry_def wakelocks_lru_most_recent_def)
qed

lemma dom_ws_update: "wl \<in> dom (mem s) \<Longrightarrow> dom (mem (ws_update wl f s)) = dom (mem s)"
  by (auto simp: ws_update_def)

lemma wf_wakelocks_gc: "wf_registry s \<Longrightarrow> wf_registry (wakelocks_gc e s)"
  by (simp add: wakelocks_gc_def schedule_work_def wf_registry_def Let_def)

lemma dom_lru_most_recent: "dom (mem (wakelocks_lru_most_recent wl s)) = dom (mem s)"
  by (simp add: wakelocks_lru_most_recent_def)

text \<open>An acquire request, whatever its outcome, leaves a well-formed registry well formed.\<close>

theorem wf_pm_wake_lock:
  assumes "rb_ok k" and "wf_registry s"
  shows "wf_registry (snd (pm_wake_lock k e buf s))"
proof (cases "wakelock_lookup_add k e buf (length (name_token buf)) True s")
  case (Pair r s1)
  have wf1: "wf_registry s1" using assms Pair by (rule wf_lookup_add)
  show ?thesis
  proof (cases r)
    case (Inl err)
    with Pair assms(2) wf1 show ?thesis
      unfolding pm_wake_lock_def Let_def len_name_token
      by (auto split: sum.splits)
  next
    case (Inr wl)
    with lookup_add_key [OF assms] Pair have d: "wl \<in> dom (mem s1)" by simp
    have a: "wf_registry (wakelocks_lru_most_recent wl (pm_stay_awake e wl s1))"
      unfolding pm_stay_awake_def using wf1 d
      by (intro wf_lru_most_recent wf_ws_update) (simp_all add: dom_ws_update)
    have b: "wf_registry (wakelocks_lru_most_recent wl (pm_wakeup_event e wl t s1))" for t
      unfolding pm_wakeup_event_def using wf1 d
      by (intro wf_lru_most_recent wf_ws_update) (simp_all add: dom_ws_update)
    from Pair Inr assms(2) a b show ?thesis
      unfolding pm_wake_lock_def Let_def len_name_token
      by (auto split: sum.splits)
  qed
qed

theorem wf_pm_wake_lock_witness:
  "rb_ok (plain_kernel 2) \<and> wf_registry init_registry \<and>
   wf_registry (snd (pm_wake_lock (plain_kernel 2) user ''a 5'' init_registry))"
  using rb_ok_plain [of 2] wf_init
    wf_pm_wake_lock [OF rb_ok_plain [of 2] wf_init, of user "''a 5''"]
  by simp

text \<open>A release request, whatever its outcome, leaves a well-formed registry well formed.\<close>

theorem wf_pm_wake_unlock:
  assumes "rb_ok k" and "wf_registry s"
  shows "wf_registry (snd (pm_wake_unlock k e buf s))"
proof -
  let ?len = "if last buf = newline then length buf - 1 else length buf"
  obtain r s1 where p: "wakelock_lookup_add k e buf ?len False s = (r, s1)"
    by (cases "wakelock_lookup_add k e buf ?len False s") auto
  have wf1: "wf_registry s1" using assms p by (rule wf_lookup_add)
  show ?thesis
  proof (cases r)
    case (Inl err)
    with p assms(2) wf1 show ?thesis
      unfolding pm_wake_unlock_def Let_def by auto
  next
    case (Inr wl)
    with lookup_add_key [OF assms] p have d: "wl \<in> dom (mem s1)" by simp
    have "wf_registry (wakelocks_gc e (wakelocks_lru_most_recent wl (pm_relax e wl s1)))"
      unfolding pm_relax_def using wf1 d
      by (intro wf_wakelocks_gc wf_lru_most_recent wf_ws_update) (simp_all add: dom_ws_update)
    with p Inr assms(2) show ?thesis
      unfolding pm_wake_unlock_def Let_def by auto
  qed
qed

theorem wf_pm_wake_unlock_witness:
  "rb_ok (plain_kernel 2) \<and> wf_registry one_lock \<and>
   wf_registry (snd (pm_wake_unlock (plain_kernel 2) user ''a'' one_lock))"
proof -
  have r: "wakelock_lookup_add (plain_kernel 2) user ''a'' 1 True init_registry =
           (fst (wakelock_lookup_add (plain_kernel 2) user ''a'' 1 True init_registry), one_lock)"
    by (simp add: one_lock_def)
  have w: "wf_registry one_lock"
    using rb_ok_plain [of 2] wf_init r by (rule wf_lookup_add)
  show ?thesis
    using rb_ok_plain [of 2] w wf_pm_wake_unlock [OF rb_ok_plain [of 2] w, of user "''a''"]
    by simp
qed

lemma wf_swept:
  assumes "wf_registry s" and "swept k D s s'"
  shows "wf_registry s'"
proof -
  from assms(2) have m: "mem s' = (\<lambda>a. if a \<in> set D then None else mem s a)"
    and l: "wakelocks_lru_list s' = filter (\<lambda>a. a \<notin> set D) (wakelocks_lru_list s)"
    and t: "inorder (wakelocks_tree s') = filter (\<lambda>a. a \<notin> set D) (inorder (wakelocks_tree s))"
    and b: "brk s' = brk s"
    by (simp_all add: swept_def)
  from m have dm: "dom (mem s') = dom (mem s) - set D" by (auto simp: dom_def)
  have eq: "map (key_of (mem s')) (filter (\<lambda>a. a \<notin> set D) xs) =
        map (key_of (mem s)) (filter (\<lambda>a. a \<notin> set D) xs)" for xs
    by (induction xs) (simp_all add: m key_of_def deref_def)
  have keep: "sorted_wrt (<) (map (key_of (mem s)) (filter (\<lambda>a. a \<notin> set D) xs))"
    if "sorted_wrt (<) (map (key_of (mem s)) xs)" for xs
    using that by (induction xs) auto
  from assms(1) have "sorted_wrt (<) (map (key_of (mem s)) (inorder (wakelocks_tree s)))"
    by (simp add: wf_registry_def)
  from keep [OF this] have "sorted_wrt (<) (map (key_of (mem s')) (inorder (wakelocks_tree s')))"
    unfolding t eq .
  moreover have "set (inorder (wakelocks_tree s')) = dom (mem s')"
    "set (wakelocks_lru_list s') = dom (mem s')" "distinct (wakelocks_lru_list s')"
    "dom (mem s') \<subseteq> {..< brk s'}"
    using assms(1) by (auto simp: t l b dm wf_registry_def)
  ultimately show ?thesis by (simp add: wf_registry_def)
qed

text \<open>A sweep leaves a well-formed registry well formed.\<close>

theorem wf_wakelocks_gc_work:
  assumes "rb_ok k" and "wf_registry s"
  shows "wf_registry (wakelocks_gc_work k e s)"
  using wf_swept [OF assms(2) gc_work_swept [OF assms]] .

theorem wf_wakelocks_gc_work_witness:
  "rb_ok (plain_kernel 5) \<and> wf_registry five_locks \<and>
   wf_registry (wakelocks_gc_work (plain_kernel 5) at_400s five_locks)"
  using rb_ok_plain [of 5] wf_five
    wf_wakelocks_gc_work [OF rb_ok_plain [of 5] wf_five, of at_400s]
  by simp

end
